theory Spec2Isabelle
  imports Complex_Main "HOL-Library.Multiset" "HOL-Library.Monad_Syntax"
begin

section \<open>The sorting engine of SortingCards.py\<close>

text \<open>
  The elements are of an arbitrary type \<open>'a\<close>; the key function maps them to a
  totally ordered key type \<open>'k\<close> (the Python code compares keys with \<open><=\<close>).
  Python lists are HOL lists; \<open>max_depth\<close> is a Python integer, so an \<open>int\<close>.
\<close>

subsection \<open>merge (lines 19 to 45)\<close>

text \<open>
  The \<open>while\<close> loop of \<open>merge\<close>, with its two cursors \<open>i\<close> and \<open>j\<close> and the
  output list \<open>merged\<close>. The loop reads \<open>left[i]\<close> and \<open>right[j]\<close> only under the
  guard \<open>i < len(left) and j < len(right)\<close>, so no read is out of range.
  It returns the final values of \<open>i\<close>, \<open>j\<close> and \<open>merged\<close>.
\<close>

function merge_loop ::
  "'a list \<Rightarrow> 'a list \<Rightarrow> ('a \<Rightarrow> 'k::linorder) \<Rightarrow> nat \<Rightarrow> nat \<Rightarrow> 'a list \<Rightarrow> nat \<times> nat \<times> 'a list"
where
  "merge_loop left right key i j merged =
     (if i < length left \<and> j < length right then
        (if key (left ! i) \<le> key (right ! j)
         then merge_loop left right key (i + 1) j (merged @ [left ! i])
         else merge_loop left right key i (j + 1) (merged @ [right ! j]))
      else (i, j, merged))"
  by pat_completeness auto
termination
  by (relation "measure (\<lambda>(left, right, key, i, j, merged). (length left - i) + (length right - j))")
     auto

declare merge_loop.simps [simp del]

text \<open>
  \<open>merge\<close> itself: run the loop from \<open>i = j = 0\<close> and an empty \<open>merged\<close>, then
  extend \<open>merged\<close> with the slices \<open>left[i:]\<close> and \<open>right[j:]\<close>.
\<close>

definition merge :: "'a list \<Rightarrow> 'a list \<Rightarrow> ('a \<Rightarrow> 'k::linorder) \<Rightarrow> 'a list" where
  "merge left right key =
     (case merge_loop left right key 0 0 [] of
        (i, j, merged) \<Rightarrow> (merged @ drop i left) @ drop j right)"

subsection \<open>The sequential baseline\<close>

text \<open>
  Python's built-in \<open>sorted(array, key=key)\<close> is not code of this repository. It returns
  a new list with the elements of \<open>array\<close> in ascending order of their keys, and it is
  guaranteed stable. Over a total order there is exactly one such list, the one
  \<^const>\<open>sort_key\<close> computes.
\<close>

definition sorted_py :: "'a list \<Rightarrow> ('a \<Rightarrow> 'k::linorder) \<Rightarrow> 'a list" where
  "sorted_py array key = sort_key key array"

subsection \<open>parallel_merge_sort (lines 47 to 76)\<close>

text \<open>
  Lines 64 to 66: the two slices \<open>array[:mid]\<close> and \<open>array[mid:]\<close> with
  \<open>mid = len(array) // 2\<close>.
\<close>

definition split_parts :: "'a list \<Rightarrow> 'a list \<times> 'a list" where
  "split_parts array = (let mid = length array div 2 in (take mid array, drop mid array))"

text \<open>
  The two halves are submitted to a process pool and the caller waits for both
  results; \<open>Future.result()\<close> returns what the submitted call returned. The sorted
  list does not depend on how the two calls are scheduled. This first definition is the
  recursion with every submitted call delivered to its worker: the list a call returns
  when the pool raises nothing. What the pool needs in order to deliver a call is added
  in \<open>parallel_merge_sort_pool\<close> below.
\<close>

function parallel_merge_sort :: "'a list \<Rightarrow> ('a \<Rightarrow> 'k::linorder) \<Rightarrow> int \<Rightarrow> 'a list" where
  "parallel_merge_sort array key max_depth =
     (if length array \<le> 1 \<or> max_depth \<le> 0 then sorted_py array key
      else
        (let left_part = fst (split_parts array);
             right_part = snd (split_parts array);
             left_sorted = parallel_merge_sort left_part key (max_depth - 1);
             right_sorted = parallel_merge_sort right_part key (max_depth - 1)
         in merge left_sorted right_sorted key))"
  by pat_completeness auto
termination
  by (relation "measure (\<lambda>(array, key, max_depth). nat max_depth)") auto

declare parallel_merge_sort.simps [simp del]

text \<open>
  The calls a call of \<open>parallel_merge_sort\<close> submits (lines 61 to 71): none in the
  base case, otherwise one for each half, both with \<open>max_depth - 1\<close>. The key function
  is handed on unchanged and is left out of the relation.
\<close>

inductive submits :: "'a list \<times> int \<Rightarrow> 'a list \<times> int \<Rightarrow> bool" where
  left_future:
    "\<not> (length array \<le> 1 \<or> max_depth \<le> 0) \<Longrightarrow>
     submits (array, max_depth) (fst (split_parts array), max_depth - 1)"
| right_future:
    "\<not> (length array \<le> 1 \<or> max_depth \<le> 0) \<Longrightarrow>
     submits (array, max_depth) (snd (split_parts array), max_depth - 1)"

subsection \<open>parallel_merge_sort with the process pool (lines 69 to 74)\<close>

text \<open>
  \<open>executor.submit(parallel_merge_sort, left_part, key, max_depth - 1)\<close> sends the
  function and its arguments to a worker process by pickling them. \<open>pickle\<close> stores a
  function by its qualified name: that works for a function defined with \<open>def\<close> at
  module level, such as \<open>card_sort_key\<close> (line 11), and fails for a lambda expression,
  such as the default \<open>key=lambda x: x\<close> of \<open>merge\<close> and \<open>parallel_merge_sort\<close> (lines 19
  and 47). So a key function is one of the two, with the function it computes.
\<close>

datatype ('a, 'k) py_function = Def "'a \<Rightarrow> 'k" | Lambda "'a \<Rightarrow> 'k"

fun call :: "('a, 'k) py_function \<Rightarrow> 'a \<Rightarrow> 'k" where
  "call (Def f) x = f x"
| "call (Lambda f) x = f x"

fun picklable :: "('a, 'k) py_function \<Rightarrow> bool" where
  "picklable (Def f) = True"
| "picklable (Lambda f) = False"

datatype pool_error = PicklingError

text \<open>
  When the work item of a submitted call cannot be pickled, the pool sets the error as
  the exception of its future, and \<open>left_future.result()\<close> (line 73) raises it in the
  caller. The base case (lines 61 and 62) submits nothing. The elements of the list are
  taken to be picklable, as the cards are.
\<close>

function parallel_merge_sort_pool ::
  "'a list \<Rightarrow> ('a, 'k::linorder) py_function \<Rightarrow> int \<Rightarrow> pool_error + 'a list"
where
  "parallel_merge_sort_pool array key max_depth =
     (if length array \<le> 1 \<or> max_depth \<le> 0 then Inr (sorted_py array (call key))
      else if \<not> picklable key then Inl PicklingError
      else
        (case parallel_merge_sort_pool (fst (split_parts array)) key (max_depth - 1) of
           Inl e \<Rightarrow> Inl e
         | Inr left_sorted \<Rightarrow>
             (case parallel_merge_sort_pool (snd (split_parts array)) key (max_depth - 1) of
                Inl e \<Rightarrow> Inl e
              | Inr right_sorted \<Rightarrow> Inr (merge left_sorted right_sorted (call key)))))"
  by pat_completeness auto
termination
  by (relation "measure (\<lambda>(array, key, max_depth). nat max_depth)") auto

declare parallel_merge_sort_pool.simps [simp del]

subsection \<open>get_optimal_max_depth (lines 78 to 87)\<close>

text \<open>
  \<open>int(x)\<close> on a float truncates towards zero. A finite float is the real number it
  denotes.
\<close>

definition py_int :: "real \<Rightarrow> int" where
  "py_int x = (if 0 \<le> x then \<lfloor>x\<rfloor> else \<lceil>x\<rceil>)"

text \<open>
  \<open>multiprocessing.cpu_count()\<close> and \<open>math.log2\<close> belong to the Python library, not
  to this repository: the number of CPUs is the parameter \<open>cpu_count\<close>, and the
  library's floating-point logarithm is the parameter \<open>log2\<close>, which maps an
  integer to the float it returns for it.
\<close>

definition get_optimal_max_depth :: "(int \<Rightarrow> real) \<Rightarrow> int \<Rightarrow> int" where
  "get_optimal_max_depth log2 cpu_count =
     (if cpu_count < 2 then 0 else py_int (log2 cpu_count))"

text \<open>
  What the theorems below assume of the library's \<open>math.log2\<close> on the CPU counts
  below \<open>2 ^ 32\<close>: it is exact at the powers of two, and its error is at most
  \<open>2 ^ -40\<close> everywhere (a double there carries 47 or more fractional bits).
\<close>

definition accurate_log2 :: "(int \<Rightarrow> real) \<Rightarrow> bool" where
  "accurate_log2 log2 \<longleftrightarrow>
     (\<forall>k::nat. k < 32 \<longrightarrow> log2 (2 ^ k) = real k) \<and>
     (\<forall>n::int. 1 \<le> n \<and> n < 2 ^ 32 \<longrightarrow> \<bar>log2 n - log 2 (real_of_int n)\<bar> \<le> 1 / 2 ^ 40)"

section \<open>Cards and their keys (lines 127 to 165)\<close>

text \<open>
  A suit or a rank is a Python value; the source uses strings (\<open>"corazones"\<close>, \<open>"10"\<close>,
  \<open>'J'\<close>) and, for the ranks of the jokers, integers. A Python string is modelled by its
  UTF-8 bytes, which keeps equality and the order of strings.
\<close>

datatype pyval = PInt int | PStr string

datatype error = KeyError | TypeError

record Card =
  suit :: pyval
  rank :: pyval

definition comodin :: pyval where
  "comodin = PStr ''comodin''"

definition suits_order :: "pyval \<rightharpoonup> int" where
  "suits_order = map_of
     [(PStr ''corazones'', 0),
      (PStr (''tr'' @ [CHR 0xC3, CHR 0xA9] @ ''boles''), 1),
      (PStr ''picas'', 2),
      (PStr ''diamantes'', 3),
      (PStr ''comodin'', 4)]"

definition ranks_order :: "pyval \<rightharpoonup> int" where
  "ranks_order = map_of
     [(PStr ''2'', 2), (PStr ''3'', 3), (PStr ''4'', 4), (PStr ''5'', 5), (PStr ''6'', 6),
      (PStr ''7'', 7), (PStr ''8'', 8), (PStr ''9'', 9), (PStr ''10'', 10), (PStr ''J'', 11),
      (PStr ''Q'', 12), (PStr ''K'', 13), (PStr ''A'', 1)]"

text \<open>A dictionary lookup \<open>d[k]\<close> raises \<open>KeyError\<close> when \<open>k\<close> is not a key of \<open>d\<close>.\<close>

definition lookup :: "(pyval \<rightharpoonup> int) \<Rightarrow> pyval \<Rightarrow> error + int" where
  "lookup d k = (case d k of None \<Rightarrow> Inl KeyError | Some v \<Rightarrow> Inr v)"

text \<open>
  \<open>Card.key\<close>: the pair is built left to right, so the suit is looked up first.
  The second component is the raw rank for a joker and an integer otherwise.
\<close>

definition Card_key :: "Card \<Rightarrow> error + (int \<times> pyval)" where
  "Card_key self =
     (if suit self = comodin then
        (case lookup suits_order (suit self) of
           Inl e \<Rightarrow> Inl e
         | Inr s \<Rightarrow> Inr (s, rank self))
      else
        (case lookup suits_order (suit self) of
           Inl e \<Rightarrow> Inl e
         | Inr s \<Rightarrow>
             (case lookup ranks_order (rank self) of
                Inl e \<Rightarrow> Inl e
              | Inr r \<Rightarrow> Inr (s, PInt r))))"

definition card_sort_key :: "Card \<Rightarrow> error + (int \<times> pyval)" where
  "card_sort_key a_card = Card_key a_card"

text \<open>
  Python's \<open><=\<close> on the values that occur in keys: integers by value, strings
  lexicographically by code point, and \<open>TypeError\<close> between an integer and a string.
\<close>

fun str_le :: "string \<Rightarrow> string \<Rightarrow> bool" where
  "str_le [] t = True"
| "str_le (c # s) [] = False"
| "str_le (c # s) (d # t) =
     (if (of_char c :: nat) < of_char d then True
      else if (of_char c :: nat) = of_char d then str_le s t
      else False)"

fun pyval_le :: "pyval \<Rightarrow> pyval \<Rightarrow> error + bool" where
  "pyval_le (PInt a) (PInt b) = Inr (a \<le> b)"
| "pyval_le (PStr s) (PStr t) = Inr (str_le s t)"
| "pyval_le (PInt a) (PStr t) = Inl TypeError"
| "pyval_le (PStr s) (PInt b) = Inl TypeError"

text \<open>
  Python's \<open><=\<close> on two pairs: the first components decide when they differ;
  otherwise the second components do, and two equal pairs are in order.
\<close>

definition tuple_le :: "int \<times> pyval \<Rightarrow> int \<times> pyval \<Rightarrow> error + bool" where
  "tuple_le p q =
     (if fst p \<noteq> fst q then Inr (fst p \<le> fst q)
      else if snd p \<noteq> snd q then pyval_le (snd p) (snd q)
      else Inr True)"

section \<open>The engine with a key function that can raise\<close>

text \<open>
  Here the key function returns \<open>Inl e\<close> when it raises \<open>e\<close>, and so does the
  comparison \<open>le\<close> of two keys. A result \<open>Inl e\<close> of a function stands for the
  exception \<open>e\<close> leaving it.
\<close>

text \<open>
  \<open>sorted(array, key=key)\<close> first calls \<open>key\<close> on every element, from left to
  right, and the first exception leaves \<open>sorted\<close>.
\<close>

fun key_all :: "('a \<Rightarrow> 'e + 'k) \<Rightarrow> 'a list \<Rightarrow> 'e + 'k list" where
  "key_all key [] = Inr []"
| "key_all key (x # xs) =
     (case key x of
        Inl e \<Rightarrow> Inl e
      | Inr k \<Rightarrow> (case key_all key xs of Inl e \<Rightarrow> Inl e | Inr ks \<Rightarrow> Inr (k # ks)))"

text \<open>
  Then it sorts the elements by the keys computed. That second phase is the parameter
  \<open>sort_pairs\<close>, which receives the keys paired with their elements.
\<close>

definition sorted_exc ::
  "(('k \<times> 'a) list \<Rightarrow> 'e + 'a list) \<Rightarrow> 'a list \<Rightarrow> ('a \<Rightarrow> 'e + 'k) \<Rightarrow> 'e + 'a list"
where
  "sorted_exc sort_pairs array key =
     (case key_all key array of
        Inl e \<Rightarrow> Inl e
      | Inr ks \<Rightarrow> sort_pairs (zip ks array))"

text \<open>The second phase of the built-in sort over a total order: a stable sort by the keys.\<close>

definition stable_sort_pairs :: "('k::linorder \<times> 'a) list \<Rightarrow> 'e + 'a list" where
  "stable_sort_pairs ps = Inr (map snd (sort_key fst ps))"

function merge_loop_exc ::
  "'a list \<Rightarrow> 'a list \<Rightarrow> ('a \<Rightarrow> 'e + 'k) \<Rightarrow> ('k \<Rightarrow> 'k \<Rightarrow> 'e + bool) \<Rightarrow>
   nat \<Rightarrow> nat \<Rightarrow> 'a list \<Rightarrow> 'e + nat \<times> nat \<times> 'a list"
where
  "merge_loop_exc left right key le i j merged =
     (if i < length left \<and> j < length right then
        (case key (left ! i) of
           Inl e \<Rightarrow> Inl e
         | Inr kl \<Rightarrow>
             (case key (right ! j) of
                Inl e \<Rightarrow> Inl e
              | Inr kr \<Rightarrow>
                  (case le kl kr of
                     Inl e \<Rightarrow> Inl e
                   | Inr b \<Rightarrow>
                       if b then merge_loop_exc left right key le (i + 1) j (merged @ [left ! i])
                       else merge_loop_exc left right key le i (j + 1) (merged @ [right ! j]))))
      else Inr (i, j, merged))"
  by pat_completeness auto
termination
  by (relation "measure (\<lambda>(left, right, key, le, i, j, merged).
                   (length left - i) + (length right - j))")
     auto

declare merge_loop_exc.simps [simp del]

definition merge_exc ::
  "'a list \<Rightarrow> 'a list \<Rightarrow> ('a \<Rightarrow> 'e + 'k) \<Rightarrow> ('k \<Rightarrow> 'k \<Rightarrow> 'e + bool) \<Rightarrow> 'e + 'a list"
where
  "merge_exc left right key le =
     (case merge_loop_exc left right key le 0 0 [] of
        Inl e \<Rightarrow> Inl e
      | Inr (i, j, merged) \<Rightarrow> Inr ((merged @ drop i left) @ drop j right))"

text \<open>
  The recursion is defined without a termination argument: \<open>None\<close> stands for a call
  that does not return. Both halves are submitted before either result is awaited, so
  both calls run; \<open>left_future.result()\<close> is asked first and raises what the left call
  raised, then \<open>right_future.result()\<close>.
\<close>

partial_function (option) parallel_merge_sort_exc ::
  "(('k \<times> 'a) list \<Rightarrow> 'e + 'a list) \<Rightarrow> ('k \<Rightarrow> 'k \<Rightarrow> 'e + bool) \<Rightarrow>
   'a list \<Rightarrow> ('a \<Rightarrow> 'e + 'k) \<Rightarrow> int \<Rightarrow> ('e + 'a list) option"
where
  "parallel_merge_sort_exc sort_pairs le array key max_depth =
     (if length array \<le> 1 \<or> max_depth \<le> 0 then Some (sorted_exc sort_pairs array key)
      else do {
        left_result \<leftarrow>
          parallel_merge_sort_exc sort_pairs le (fst (split_parts array)) key (max_depth - 1);
        right_result \<leftarrow>
          parallel_merge_sort_exc sort_pairs le (snd (split_parts array)) key (max_depth - 1);
        Some (case left_result of
                Inl e \<Rightarrow> Inl e
              | Inr left_sorted \<Rightarrow>
                  (case right_result of
                     Inl e \<Rightarrow> Inl e
                   | Inr right_sorted \<Rightarrow> merge_exc left_sorted right_sorted key le))
      })"

section \<open>The engine over a store of list objects\<close>

text \<open>
  To speak of mutation, the list objects live in a store and a variable holds the
  address of one: the store is the list of all list objects, and an address is an index
  into it. Creating a list appends it to the store; \<open>append\<close> and \<open>extend\<close> change the
  object at an address in place.
\<close>

type_synonym 'a store = "'a list list"

definition new_list :: "'a store \<Rightarrow> 'a list \<Rightarrow> nat \<times> 'a store" where
  "new_list s xs = (length s, s @ [xs])"

definition append_st :: "'a store \<Rightarrow> nat \<Rightarrow> 'a \<Rightarrow> 'a store" where
  "append_st s a x = s[a := s ! a @ [x]]"

definition extend_st :: "'a store \<Rightarrow> nat \<Rightarrow> 'a list \<Rightarrow> 'a store" where
  "extend_st s a xs = s[a := s ! a @ xs]"

text \<open>
  The loop of \<open>merge\<close> over the store. \<open>left\<close>, \<open>right\<close> and \<open>merged\<close> are addresses.
  Were \<open>merged\<close> the same object as \<open>left\<close>, the loop could grow the list it reads and
  never end, so it is defined as a partial function.
\<close>

partial_function (option) merge_loop_st ::
  "'a store \<Rightarrow> nat \<Rightarrow> nat \<Rightarrow> ('a \<Rightarrow> 'k::linorder) \<Rightarrow> nat \<Rightarrow> nat \<Rightarrow> nat \<Rightarrow>
   (nat \<times> nat \<times> 'a store) option"
where
  "merge_loop_st s left right key i j merged =
     (if i < length (s ! left) \<and> j < length (s ! right) then
        (if key (s ! left ! i) \<le> key (s ! right ! j)
         then merge_loop_st (append_st s merged (s ! left ! i)) left right key (i + 1) j merged
         else merge_loop_st (append_st s merged (s ! right ! j)) left right key i (j + 1) merged)
      else Some (i, j, s))"

text \<open>
  \<open>merged = []\<close> creates a new list object. The slices \<open>left[i:]\<close> and \<open>right[j:]\<close> are
  temporary objects that only \<open>extend\<close> reads; the model passes their contents.
\<close>

definition merge_st ::
  "'a store \<Rightarrow> nat \<Rightarrow> nat \<Rightarrow> ('a \<Rightarrow> 'k::linorder) \<Rightarrow> (nat \<times> 'a store) option"
where
  "merge_st s left right key =
     (case new_list s [] of
        (merged, s1) \<Rightarrow>
          do {
            (i, j, s2) \<leftarrow> merge_loop_st s1 left right key 0 0 merged;
            let s3 = extend_st s2 merged (drop i (s2 ! left));
            let s4 = extend_st s3 merged (drop j (s3 ! right));
            Some (merged, s4)
          })"

text \<open>
  \<open>sorted\<close> and the two slices create new list objects. The submitted calls run in
  worker processes on copies of their arguments, and their results come back as new
  objects; the model runs them on the caller's store, where they could reach more
  objects than a worker can.
\<close>

partial_function (option) parallel_merge_sort_st ::
  "'a store \<Rightarrow> nat \<Rightarrow> ('a \<Rightarrow> 'k::linorder) \<Rightarrow> int \<Rightarrow> (nat \<times> 'a store) option"
where
  "parallel_merge_sort_st s array key max_depth =
     (if length (s ! array) \<le> 1 \<or> max_depth \<le> 0
      then Some (new_list s (sorted_py (s ! array) key))
      else
        (case new_list s (fst (split_parts (s ! array))) of
           (left_part, s1) \<Rightarrow>
             (case new_list s1 (snd (split_parts (s1 ! array))) of
                (right_part, s2) \<Rightarrow>
                  do {
                    (left_sorted, s3) \<leftarrow> parallel_merge_sort_st s2 left_part key (max_depth - 1);
                    (right_sorted, s4) \<leftarrow> parallel_merge_sort_st s3 right_part key (max_depth - 1);
                    merge_st s4 left_sorted right_sorted key
                  })))"

section \<open>Properties of merge\<close>

text \<open>The loop computes the usual merge of the two unread suffixes.\<close>

fun merge_lists :: "('a \<Rightarrow> 'k::linorder) \<Rightarrow> 'a list \<Rightarrow> 'a list \<Rightarrow> 'a list" where
  "merge_lists key [] ys = ys"
| "merge_lists key xs [] = xs"
| "merge_lists key (x # xs) (y # ys) =
     (if key x \<le> key y then x # merge_lists key xs (y # ys)
      else y # merge_lists key (x # xs) ys)"

lemma merge_lists_Nil2 [simp]: "merge_lists key xs [] = xs"
  by (cases xs) simp_all

lemma merge_loop_merge_lists:
  "(case merge_loop left right key i j merged of
      (i', j', merged') \<Rightarrow> (merged' @ drop i' left) @ drop j' right)
   = merged @ merge_lists key (drop i left) (drop j right)"
proof (induction left right key i j merged rule: merge_loop.induct)
  case (1 left right key i j merged)
  show ?case
  proof (cases "i < length left \<and> j < length right")
    case False
    then show ?thesis
      by (subst merge_loop.simps) auto
  next
    case True
    then have dl: "drop i left = left ! i # drop (Suc i) left"
      and dr: "drop j right = right ! j # drop (Suc j) right"
      by (simp_all add: Cons_nth_drop_Suc)
    show ?thesis
    proof (cases "key (left ! i) \<le> key (right ! j)")
      case le: True
      have "(case merge_loop left right key i j merged of
               (i', j', merged') \<Rightarrow> (merged' @ drop i' left) @ drop j' right)
            = (merged @ [left ! i]) @ merge_lists key (drop (Suc i) left) (drop j right)"
        using True le "1.IH"(1) by (subst merge_loop.simps) simp
      also have "\<dots> = merged @ merge_lists key (drop i left) (drop j right)"
        using le by (simp add: dl dr)
      finally show ?thesis .
    next
      case gt: False
      have "(case merge_loop left right key i j merged of
               (i', j', merged') \<Rightarrow> (merged' @ drop i' left) @ drop j' right)
            = (merged @ [right ! j]) @ merge_lists key (drop i left) (drop (Suc j) right)"
        using True gt "1.IH"(2) by (subst merge_loop.simps) simp
      also have "\<dots> = merged @ merge_lists key (drop i left) (drop j right)"
        using gt by (simp add: dl dr)
      finally show ?thesis .
    qed
  qed
qed

lemma merge_eq_merge_lists: "merge left right key = merge_lists key left right"
  using merge_loop_merge_lists [of left right key 0 0 "[]"] by (simp add: merge_def)

lemma mset_merge_lists: "mset (merge_lists key xs ys) = mset xs + mset ys"
  by (induction key xs ys rule: merge_lists.induct) simp_all

lemma set_merge_lists: "set (merge_lists key xs ys) = set xs \<union> set ys"
  by (induction key xs ys rule: merge_lists.induct) auto

lemma sorted_merge_lists:
  "sorted (map key xs) \<Longrightarrow> sorted (map key ys) \<Longrightarrow> sorted (map key (merge_lists key xs ys))"
  by (induction key xs ys rule: merge_lists.induct) (auto simp: set_merge_lists)

lemma filter_merge_lists:
  "sorted (map key xs) \<Longrightarrow> sorted (map key ys) \<Longrightarrow>
   filter (\<lambda>x. key x = k) (merge_lists key xs ys)
   = filter (\<lambda>x. key x = k) xs @ filter (\<lambda>x. key x = k) ys"
proof (induction key xs ys rule: merge_lists.induct)
  case (3 key x xs y ys)
  show ?case
  proof (cases "key x \<le> key y")
    case True
    with 3 show ?thesis by simp
  next
    case False
    then have lt: "key y < key x" by simp
    have "\<forall>z \<in> set (x # xs). key y < key z"
      using "3.prems"(1) lt by auto
    then have none: "key y = k \<Longrightarrow> filter (\<lambda>x. key x = k) (x # xs) = []"
      by (auto simp: filter_empty_conv)
    from False 3 have
      "filter (\<lambda>x. key x = k) (merge_lists key (x # xs) (y # ys))
       = filter (\<lambda>x. key x = k) [y] @ filter (\<lambda>x. key x = k) (x # xs) @ filter (\<lambda>x. key x = k) ys"
      by (cases "key y = k") (use none in auto)
    then show ?thesis using none by (cases "key y = k") auto
  qed
qed simp_all

section \<open>The sorted result\<close>

text \<open>Merging two stably sorted halves gives the stable sort of their concatenation.\<close>

lemma merge_sort_key:
  "merge (sort_key key xs) (sort_key key ys) key = sort_key key (xs @ ys)"
proof -
  let ?m = "merge_lists key (sort_key key xs) (sort_key key ys)"
  have "sort_key key (xs @ ys) = ?m"
  proof (rule properties_for_sort_key)
    show "mset ?m = mset (xs @ ys)"
      by (simp add: mset_merge_lists)
    show "sorted (map key ?m)"
      by (simp add: sorted_merge_lists)
    fix k
    have "filter (\<lambda>x. key x = key k) ?m = filter (\<lambda>x. key x = key k) (xs @ ys)"
      by (simp add: filter_merge_lists sort_key_stable)
    then show "filter (\<lambda>x. key k = key x) ?m = filter (\<lambda>x. key k = key x) (xs @ ys)"
      by (simp add: eq_commute [of "key k"])
  qed
  then show ?thesis by (simp add: merge_eq_merge_lists)
qed

lemma split_parts_append: "fst (split_parts array) @ snd (split_parts array) = array"
  by (simp add: split_parts_def Let_def)

lemma parallel_merge_sort_sorted_py:
  "parallel_merge_sort array key max_depth = sorted_py array key"
proof (induction array key max_depth rule: parallel_merge_sort.induct)
  case (1 array key max_depth)
  show ?case
  proof (cases "length array \<le> 1 \<or> max_depth \<le> 0")
    case True
    then show ?thesis by (subst parallel_merge_sort.simps) simp
  next
    case False
    have "parallel_merge_sort array key max_depth
          = merge (sorted_py (fst (split_parts array)) key)
                  (sorted_py (snd (split_parts array)) key) key"
      using False "1.IH" by (subst parallel_merge_sort.simps) (simp add: Let_def)
    also have "\<dots> = sorted_py (fst (split_parts array) @ snd (split_parts array)) key"
      unfolding sorted_py_def by (rule merge_sort_key)
    finally show ?thesis by (simp only: split_parts_append)
  qed
qed

lemma sorted_map_adjacent:
  "sorted (map key xs) \<Longrightarrow> Suc i < length xs \<Longrightarrow> key (xs ! i) \<le> key (xs ! Suc i)"
  using sorted_nth_mono [of "map key xs" i "Suc i"] by simp

inductive_simps submits_simps: "submits (array, max_depth) c"

text \<open>
  With the process pool: a call returns a list exactly when its key function can be
  pickled or the call is a base case, and the list is then the stable sort by key.
\<close>

lemma parallel_merge_sort_pool_picklable:
  "picklable key \<Longrightarrow>
   parallel_merge_sort_pool array key max_depth
   = Inr (parallel_merge_sort array (call key) max_depth)"
proof (induction array key max_depth rule: parallel_merge_sort_pool.induct)
  case (1 array key max_depth)
  show ?case
  proof (cases "length array \<le> 1 \<or> max_depth \<le> 0")
    case True
    then show ?thesis
      by (subst parallel_merge_sort_pool.simps, subst parallel_merge_sort.simps) simp
  next
    case False
    then show ?thesis
      using "1.IH" "1.prems"
      by (subst parallel_merge_sort_pool.simps, subst parallel_merge_sort.simps)
         (simp add: Let_def)
  qed
qed

lemma parallel_merge_sort_pool_not_picklable:
  "\<not> picklable key \<Longrightarrow>
   parallel_merge_sort_pool array key max_depth
   = (if length array \<le> 1 \<or> max_depth \<le> 0 then Inr (sorted_py array (call key))
      else Inl PicklingError)"
  by (subst parallel_merge_sort_pool.simps) simp

lemma parallel_merge_sort_pool_result:
  "parallel_merge_sort_pool array key max_depth = Inr out \<Longrightarrow>
   out = sorted_py array (call key)"
proof (cases "picklable key")
  case True
  then show "parallel_merge_sort_pool array key max_depth = Inr out \<Longrightarrow> ?thesis"
    by (simp add: parallel_merge_sort_pool_picklable parallel_merge_sort_sorted_py)
next
  case False
  then show "parallel_merge_sort_pool array key max_depth = Inr out \<Longrightarrow> ?thesis"
    by (simp add: parallel_merge_sort_pool_not_picklable split: if_splits)
qed

lemma parallel_merge_sort_pool_returns:
  "picklable key \<or> length array \<le> 1 \<or> max_depth \<le> 0 \<Longrightarrow>
   parallel_merge_sort_pool array key max_depth = Inr (sorted_py array (call key))"
proof (cases "picklable key")
  case True
  then show ?thesis
    by (simp add: parallel_merge_sort_pool_picklable parallel_merge_sort_sorted_py)
next
  case False
  then show "picklable key \<or> length array \<le> 1 \<or> max_depth \<le> 0 \<Longrightarrow> ?thesis"
    by (simp add: parallel_merge_sort_pool_not_picklable)
qed

lemma parallel_merge_sort_pool_permutation_sorted:
  assumes "parallel_merge_sort_pool array key max_depth = Inr out"
  shows "mset out = mset array" and "sorted (map (call key) out)"
    and "Suc i < length out \<Longrightarrow> call key (out ! i) \<le> call key (out ! Suc i)"
proof -
  have out: "out = sorted_py array (call key)"
    using assms by (rule parallel_merge_sort_pool_result)
  show "mset out = mset array"
    by (simp add: out sorted_py_def)
  show s: "sorted (map (call key) out)"
    by (simp add: out sorted_py_def)
  show "call key (out ! i) \<le> call key (out ! Suc i)" if "Suc i < length out"
    using s that by (rule sorted_map_adjacent)
qed

text \<open>
  Claim C1. For every list, key function and \<open>max_depth\<close>, \<open>parallel_merge_sort\<close>
  returns a permutation of the input whose keys are in order. The code does not: with
  its own default key, the lambda \<open>lambda x: x\<close>, the call on \<open>[3, 1, 2]\<close> with
  \<open>max_depth\<close> 1, or with the default \<open>max_depth\<close> 2, raises \<open>PicklingError\<close> and
  returns no list. With the same function given by \<open>def\<close> it returns \<open>[1, 2, 3]\<close>.
\<close>

theorem parallel_merge_sort_default_key_raises:
  "parallel_merge_sort_pool [3, 1, 2 :: int] (Lambda (\<lambda>x. x)) 1 = Inl PicklingError \<and>
   parallel_merge_sort_pool [3, 1, 2 :: int] (Lambda (\<lambda>x. x)) 2 = Inl PicklingError \<and>
   parallel_merge_sort_pool [3, 1, 2 :: int] (Def (\<lambda>x. x)) 2 = Inr [1, 2, 3]"
  by (simp add: parallel_merge_sort_pool_not_picklable parallel_merge_sort_pool_returns
        sorted_py_def)

text \<open>
  Claim C2. \<open>parallel_merge_sort\<close> is stable for every \<open>max_depth\<close>: whenever a call
  returns a list, then for each key value \<open>k\<close> the elements with that key are in the
  list in the order they had in the input; and a call returns a list whenever its key
  function can be pickled or it is a base case. The sequential base case \<open>sorted\<close> is
  stable, and \<open>merge\<close> takes the head of \<open>left\<close> when the two heads have equal keys.
\<close>

theorem parallel_merge_sort_stable:
  "(parallel_merge_sort_pool array key max_depth = Inr out \<longrightarrow>
      filter (\<lambda>x. call key x = k) out = filter (\<lambda>x. call key x = k) array) \<and>
   (picklable key \<or> length array \<le> 1 \<or> max_depth \<le> 0 \<longrightarrow>
      (\<exists>out'. parallel_merge_sort_pool array key max_depth = Inr out')) \<and>
   filter (\<lambda>x. f x = k') (sorted_py array f) = filter (\<lambda>x. f x = k') array \<and>
   (f x = f y \<longrightarrow> merge (x # xs) (y # ys) f = x # merge xs (y # ys) f)"
proof (intro conjI impI)
  assume "parallel_merge_sort_pool array key max_depth = Inr out"
  then have "out = sorted_py array (call key)"
    by (rule parallel_merge_sort_pool_result)
  then show "filter (\<lambda>x. call key x = k) out = filter (\<lambda>x. call key x = k) array"
    by (simp add: sorted_py_def sort_key_stable)
next
  assume "picklable key \<or> length array \<le> 1 \<or> max_depth \<le> 0"
  then show "\<exists>out'. parallel_merge_sort_pool array key max_depth = Inr out'"
    using parallel_merge_sort_pool_returns [of key array max_depth] by blast
next
  show "filter (\<lambda>x. f x = k') (sorted_py array f) = filter (\<lambda>x. f x = k') array"
    by (simp add: sorted_py_def sort_key_stable)
  show "merge (x # xs) (y # ys) f = x # merge xs (y # ys) f" if "f x = f y"
    using that by (simp add: merge_eq_merge_lists)
qed

theorem parallel_merge_sort_stable_witness:
  "parallel_merge_sort_pool [(2::int, ''a''), (1, ''b''), (2, ''c''), (1, ''d'')] (Def fst) 2
     = Inr [(1, ''b''), (1, ''d''), (2, ''a''), (2, ''c'')] \<and>
   filter (\<lambda>x. call (Def fst) x = 2) [(1::int, ''b''), (1, ''d''), (2, ''a''), (2, ''c'')]
     = filter (\<lambda>x. call (Def fst) x = 2) [(2::int, ''a''), (1, ''b''), (2, ''c''), (1, ''d'')] \<and>
   picklable (Def (fst :: int \<times> string \<Rightarrow> int)) \<and>
   fst (1::int, ''L'') = fst (1::int, ''R'') \<and>
   merge [(1::int, ''L'')] [(1, ''R'')] fst = [(1, ''L''), (1, ''R'')]"
proof -
  let ?a = "[(2::int, ''a''), (1, ''b''), (2, ''c''), (1, ''d'')]"
  let ?o = "[(1::int, ''b''), (1, ''d''), (2, ''a''), (2, ''c'')]"
  have e: "parallel_merge_sort_pool ?a (Def fst) 2 = Inr ?o"
    by code_simp
  have m: "merge [] [(1::int, ''R'')] fst = [(1, ''R'')]"
    by code_simp
  from parallel_merge_sort_stable [where array = ?a and key = "Def fst" and max_depth = 2 and out = ?o and k = 2
        and f = fst and k' = 2 and x = "(1::int, ''L'')" and y = "(1::int, ''R'')"
        and xs = "[]" and ys = "[]"] e m
  show ?thesis by simp
qed

text \<open>
  Claim C3. Depth invariance: any two values of \<open>max_depth\<close> give the same output, the
  one of \<open>sorted(array, key=key)\<close>. The code does not: with the default key, the
  lambda \<open>lambda x: x\<close>, the call on \<open>[3, 1, 2]\<close> returns \<open>[1, 2, 3]\<close>, as \<open>sorted\<close> does,
  for \<open>max_depth\<close> 0 and -1, and raises \<open>PicklingError\<close> for \<open>max_depth\<close> 1.
\<close>

theorem parallel_merge_sort_depth_changes_outcome:
  "parallel_merge_sort_pool [3, 1, 2 :: int] (Lambda (\<lambda>x. x)) 0 = Inr [1, 2, 3] \<and>
   parallel_merge_sort_pool [3, 1, 2 :: int] (Lambda (\<lambda>x. x)) (-1) = Inr [1, 2, 3] \<and>
   parallel_merge_sort_pool [3, 1, 2 :: int] (Lambda (\<lambda>x. x)) 1 = Inl PicklingError \<and>
   sorted_py [3, 1, 2 :: int] (\<lambda>x. x) = [1, 2, 3]"
  by (simp add: parallel_merge_sort_pool_not_picklable sorted_py_def)

text \<open>
  Claim C4. \<open>merge\<close> returns a list with exactly the elements of both inputs, and
  when both inputs are sorted by key so is the result. With the identity key,
  \<open>merge([1,3,5],[2,2,4])\<close> is \<open>[1,2,2,3,4,5]\<close> and \<open>merge([],[1,2])\<close> is \<open>[1,2]\<close>;
  of two elements with the same key the one from \<open>left\<close> comes first; and when an
  input is empty the result is the other input.
\<close>

theorem merge_correct:
  "mset (merge left right key) = mset left + mset right \<and>
   (sorted (map key left) \<and> sorted (map key right)
      \<longrightarrow> sorted (map key (merge left right key))) \<and>
   merge [1, 3, 5] [2, 2, 4 :: int] (\<lambda>x. x) = [1, 2, 2, 3, 4, 5] \<and>
   merge [] [1, 2 :: int] (\<lambda>x. x) = [1, 2] \<and>
   merge [1 :: int] [1] (\<lambda>x. x) = [1, 1] \<and>
   merge [(1::int, ''left'')] [(1, ''right'')] fst = [(1, ''left''), (1, ''right'')] \<and>
   merge [] right key = right \<and>
   merge left [] key = left \<and>
   merge [] [] key = []"
  by (simp add: merge_eq_merge_lists mset_merge_lists sorted_merge_lists)

theorem merge_correct_witness:
  "sorted (map (\<lambda>x. x) [1, 3, 5 :: int]) \<and> sorted (map (\<lambda>x. x) [2, 2, 4 :: int]) \<and>
   sorted (map (\<lambda>x. x) (merge [1, 3, 5] [2, 2, 4 :: int] (\<lambda>x. x))) \<and>
   mset (merge [1, 3, 5] [2, 2, 4 :: int] (\<lambda>x. x)) = mset [1, 3, 5] + mset [2, 2, 4]"
  using merge_correct [where left = "[1, 3, 5 :: int]" and right = "[2, 2, 4]" and key = "\<lambda>x. x"]
  by simp

section \<open>Calls, exceptions and termination\<close>

lemma parallel_merge_sort_exc_returns:
  "\<exists>r. parallel_merge_sort_exc sort_pairs le array key max_depth = Some r"
proof (induction "nat max_depth" arbitrary: array max_depth)
  case 0
  then show ?case by (subst parallel_merge_sort_exc.simps) simp
next
  case (Suc n)
  show ?case
  proof (cases "length array \<le> 1 \<or> max_depth \<le> 0")
    case True
    then show ?thesis by (subst parallel_merge_sort_exc.simps) simp
  next
    case False
    from Suc.hyps(2) have n: "n = nat (max_depth - 1)" by simp
    obtain l where l: "parallel_merge_sort_exc sort_pairs le (fst (split_parts array)) key
                         (max_depth - 1) = Some l"
      using Suc.hyps(1) [OF n] by blast
    obtain r where r: "parallel_merge_sort_exc sort_pairs le (snd (split_parts array)) key
                         (max_depth - 1) = Some r"
      using Suc.hyps(1) [OF n] by blast
    show ?thesis
      using False l r by (subst parallel_merge_sort_exc.simps) simp
  qed
qed

lemma key_all_raises:
  "x \<in> set array \<Longrightarrow> key x = Inl e \<Longrightarrow> \<exists>e'. key_all key array = Inl e'"
  by (induction array) (auto split: sum.splits)

lemma sorted_exc_raises:
  "x \<in> set array \<Longrightarrow> key x = Inl e \<Longrightarrow> \<exists>e'. sorted_exc sort_pairs array key = Inl e'"
  using key_all_raises [of x array key e] by (auto simp: sorted_exc_def)

lemma set_split_parts:
  "set array = set (fst (split_parts array)) \<union> set (snd (split_parts array))"
  by (metis set_append split_parts_append)

lemma parallel_merge_sort_exc_raises:
  "x \<in> set array \<Longrightarrow> key x = Inl e \<Longrightarrow>
   \<exists>e'. parallel_merge_sort_exc sort_pairs le array key max_depth = Some (Inl e')"
proof (induction "nat max_depth" arbitrary: array max_depth)
  case 0
  then show ?case
    using sorted_exc_raises [of x array key e sort_pairs]
    by (subst parallel_merge_sort_exc.simps) auto
next
  case (Suc n)
  show ?case
  proof (cases "length array \<le> 1 \<or> max_depth \<le> 0")
    case True
    then show ?thesis
      using sorted_exc_raises [of x array key e sort_pairs] Suc.prems
      by (subst parallel_merge_sort_exc.simps) auto
  next
    case False
    from Suc.hyps(2) have n: "n = nat (max_depth - 1)" by simp
    obtain l where l: "parallel_merge_sort_exc sort_pairs le (fst (split_parts array)) key
                         (max_depth - 1) = Some l"
      using parallel_merge_sort_exc_returns by blast
    obtain r where r: "parallel_merge_sort_exc sort_pairs le (snd (split_parts array)) key
                         (max_depth - 1) = Some r"
      using parallel_merge_sort_exc_returns by blast
    have res: "parallel_merge_sort_exc sort_pairs le array key max_depth =
          Some (case l of Inl e \<Rightarrow> Inl e
                | Inr left_sorted \<Rightarrow>
                    (case r of Inl e \<Rightarrow> Inl e
                     | Inr right_sorted \<Rightarrow> merge_exc left_sorted right_sorted key le))"
      using False l r by (subst parallel_merge_sort_exc.simps) simp
    from Suc.prems(1) consider "x \<in> set (fst (split_parts array))"
      | "x \<in> set (snd (split_parts array))"
      using set_split_parts [of array] by blast
    then show ?thesis
    proof cases
      case 1
      from Suc.hyps(1) [OF n 1 Suc.prems(2)] l obtain e' where "l = Inl e'" by auto
      with res show ?thesis by simp
    next
      case 2
      from Suc.hyps(1) [OF n 2 Suc.prems(2)] r obtain e' where "r = Inl e'" by auto
      with res show ?thesis by (cases l) simp_all
    qed
  qed
qed

text \<open>
  With a key function and a comparison that never raise, and the stable second phase of
  the built-in sort, the engine that can raise returns what the total one computes.
\<close>

lemma key_all_total: "key_all (\<lambda>x. Inr (key x)) xs = Inr (map key xs)"
  by (induction xs) simp_all

lemma insort_key_snd:
  "\<forall>p \<in> set ps. fst p = key (snd p) \<Longrightarrow>
   map snd (insort_key fst (key x, x) ps) = insort_key key x (map snd ps)"
  by (induction ps) auto

lemma sort_key_zip:
  "map snd (sort_key fst (zip (map key xs) xs)) = sort_key key xs"
proof (induction xs)
  case Nil
  show ?case by simp
next
  case (Cons x xs)
  have "\<forall>p \<in> set (sort_key fst (zip (map key xs) xs)). fst p = key (snd p)"
    by (auto simp: in_set_zip)
  then show ?case
    using Cons.IH by (simp add: insort_key_snd)
qed

lemma sorted_exc_total:
  "sorted_exc stable_sort_pairs array (\<lambda>x. Inr (key x)) = Inr (sorted_py array key)"
  by (simp add: sorted_exc_def key_all_total stable_sort_pairs_def sort_key_zip sorted_py_def)

lemma merge_loop_exc_total:
  "merge_loop_exc left right (\<lambda>x. Inr (key x)) (\<lambda>a b. Inr (a \<le> b)) i j merged
   = Inr (merge_loop left right key i j merged)"
proof (induction left right key i j merged rule: merge_loop.induct)
  case (1 left right key i j merged)
  show ?case
    using 1 by (subst merge_loop_exc.simps, subst merge_loop.simps) simp
qed

lemma merge_exc_total:
  "merge_exc left right (\<lambda>x. Inr (key x)) (\<lambda>a b. Inr (a \<le> b)) = Inr (merge left right key)"
  by (simp add: merge_exc_def merge_def merge_loop_exc_total split: prod.splits)

lemma parallel_merge_sort_exc_total:
  "parallel_merge_sort_exc stable_sort_pairs (\<lambda>a b. Inr (a \<le> b)) array (\<lambda>x. Inr (key x)) max_depth
   = Some (Inr (parallel_merge_sort array key max_depth))"
proof (induction array key max_depth rule: parallel_merge_sort.induct)
  case (1 array key max_depth)
  show ?case
  proof (cases "length array \<le> 1 \<or> max_depth \<le> 0")
    case True
    then show ?thesis
      by (subst parallel_merge_sort_exc.simps, subst parallel_merge_sort.simps)
         (simp add: sorted_exc_total)
  next
    case False
    then show ?thesis
      using "1.IH"
      by (subst parallel_merge_sort_exc.simps, subst parallel_merge_sort.simps)
         (simp add: merge_exc_total Let_def)
  qed
qed



text \<open>
  Claim C5. Base case: when the list has at most one element, or \<open>max_depth <= 0\<close>
  (negative values included, which are no error), \<open>parallel_merge_sort\<close> returns
  what the sequential baseline \<open>sorted\<close> returns for the same key function, also
  when that is an exception, and submits no call. A one-element list comes back as it
  is for every \<open>max_depth\<close>, and the empty list gives the empty list.
\<close>

theorem parallel_merge_sort_base_case:
  "(length array \<le> 1 \<or> max_depth \<le> 0 \<longrightarrow>
      parallel_merge_sort array key max_depth = sorted_py array key \<and>
      parallel_merge_sort_exc sort_pairs le array key' max_depth
        = Some (sorted_exc sort_pairs array key') \<and>
      (\<forall>c. \<not> submits (array, max_depth) c)) \<and>
   parallel_merge_sort [x] key max_depth = [x] \<and>
   parallel_merge_sort [] key max_depth = []"
  by (auto simp: parallel_merge_sort.simps [of array] parallel_merge_sort.simps [of "[x]"]
        parallel_merge_sort.simps [of "[]"] sorted_py_def submits_simps
        parallel_merge_sort_exc.simps [of sort_pairs le array])

theorem parallel_merge_sort_base_case_witness:
  "((-1::int) \<le> 0 \<and> parallel_merge_sort [3, 1, 2 :: int] (\<lambda>x. x) (-1) = sorted_py [3, 1, 2] (\<lambda>x. x)
     \<and> (\<forall>c. \<not> submits ([3, 1, 2 :: int], -1) c)) \<and>
   (length [7::int] \<le> 1 \<and> parallel_merge_sort [7 :: int] (\<lambda>x. x) 5 = [7])"
  using parallel_merge_sort_base_case [where array = "[3, 1, 2 :: int]" and max_depth = "-1" and key = "\<lambda>x. x"
        and x = 0 and key' = "\<lambda>x. Inr x"
        and sort_pairs = "stable_sort_pairs :: (int \<times> int) list \<Rightarrow> error + int list"
        and le = "\<lambda>a b. Inr (a \<le> b)"]
    parallel_merge_sort_base_case [where array = "[7::int]" and x = "7::int" and max_depth = 5 and key = "\<lambda>x. x"
        and key' = "\<lambda>x. Inr x"
        and sort_pairs = "stable_sort_pairs :: (int \<times> int) list \<Rightarrow> error + int list"
        and le = "\<lambda>a b. Inr (a \<le> b)"]
  by (simp add: sorted_py_def)

text \<open>The keys of cards.\<close>

lemma suits_order_less_4:
  "suits_order s = Some n \<Longrightarrow> s \<noteq> comodin \<Longrightarrow> n < 4"
  by (auto simp: suits_order_def comodin_def split: if_splits)

lemma suits_order_comodin: "suits_order comodin = Some 4"
  by (simp add: suits_order_def comodin_def)

lemma Card_key_joker: "suit c = comodin \<Longrightarrow> Card_key c = Inr (4, rank c)"
  by (simp add: Card_key_def lookup_def suits_order_comodin)

lemma Card_key_ordinary:
  "suit c \<noteq> comodin \<Longrightarrow> Card_key c = Inr (s, r) \<Longrightarrow> s < 4"
  by (auto simp: Card_key_def lookup_def split: option.splits dest: suits_order_less_4)

lemma Card_key_malformed:
  "suits_order (suit c) = None \<or> (suit c \<noteq> comodin \<and> ranks_order (rank c) = None) \<Longrightarrow>
   Card_key c = Inl KeyError"
  by (auto simp: Card_key_def lookup_def suits_order_comodin split: option.splits)

text \<open>
  Claim C7. When the key function raises for some element of the input, the whole call
  of \<open>parallel_merge_sort\<close> raises, for every \<open>max_depth\<close>: it returns no list. For
  cards: a card whose suit is not in \<open>suits_order\<close>, or which is not a joker and whose
  rank is not in \<open>ranks_order\<close>, makes \<open>card_sort_key\<close> raise \<open>KeyError\<close>, and a
  call on any list that contains it raises.
\<close>

theorem malformed_key_fails_call:
  "(x \<in> set array \<and> key x = Inl e \<longrightarrow>
      (\<exists>e'. parallel_merge_sort_exc sort_pairs le array key max_depth = Some (Inl e'))) \<and>
   (c \<in> set cards \<and>
    (suits_order (suit c) = None \<or> (suit c \<noteq> comodin \<and> ranks_order (rank c) = None)) \<longrightarrow>
      card_sort_key c = Inl KeyError \<and>
      (\<exists>e'. parallel_merge_sort_exc sort_pairs' le' cards card_sort_key max_depth = Some (Inl e')))"
proof (intro conjI impI)
  assume "x \<in> set array \<and> key x = Inl e"
  then show "\<exists>e'. parallel_merge_sort_exc sort_pairs le array key max_depth = Some (Inl e')"
    using parallel_merge_sort_exc_raises [of x array key e] by blast
next
  assume a: "c \<in> set cards \<and>
    (suits_order (suit c) = None \<or> (suit c \<noteq> comodin \<and> ranks_order (rank c) = None))"
  then show k: "card_sort_key c = Inl KeyError"
    by (simp add: card_sort_key_def Card_key_malformed)
  from a k show "\<exists>e'. parallel_merge_sort_exc sort_pairs' le' cards card_sort_key max_depth
                       = Some (Inl e')"
    using parallel_merge_sort_exc_raises [of c cards card_sort_key KeyError] by blast
qed

theorem malformed_key_fails_call_witness:
  "\<lparr>suit = PStr ''espadas'', rank = PStr ''3''\<rparr>
     \<in> set [\<lparr>suit = PStr ''picas'', rank = PStr ''K''\<rparr>,
            \<lparr>suit = PStr ''espadas'', rank = PStr ''3''\<rparr>,
            \<lparr>suit = comodin, rank = PInt 1\<rparr>] \<and>
   suits_order (suit \<lparr>suit = PStr ''espadas'', rank = PStr ''3''\<rparr>) = None \<and>
   card_sort_key \<lparr>suit = PStr ''espadas'', rank = PStr ''3''\<rparr> = Inl KeyError \<and>
   (\<exists>e'. parallel_merge_sort_exc (\<lambda>ps. Inr (map snd ps)) tuple_le
            [\<lparr>suit = PStr ''picas'', rank = PStr ''K''\<rparr>,
             \<lparr>suit = PStr ''espadas'', rank = PStr ''3''\<rparr>,
             \<lparr>suit = comodin, rank = PInt 1\<rparr>] card_sort_key 1 = Some (Inl e'))"
proof -
  have n: "suits_order (suit \<lparr>suit = PStr ''espadas'', rank = PStr ''3''\<rparr>) = None"
    by (simp add: suits_order_def)
  from malformed_key_fails_call [where c = "\<lparr>suit = PStr ''espadas'', rank = PStr ''3''\<rparr>"
        and cards = "[\<lparr>suit = PStr ''picas'', rank = PStr ''K''\<rparr>,
             \<lparr>suit = PStr ''espadas'', rank = PStr ''3''\<rparr>,
             \<lparr>suit = comodin, rank = PInt 1\<rparr>]"
        and sort_pairs' = "\<lambda>ps. Inr (map snd ps)" and le' = tuple_le and max_depth = 1
        and x = "0::int" and array = "[]" and key = "\<lambda>x. (Inr x :: error + int)" and e = KeyError
        and sort_pairs = "stable_sort_pairs :: (int \<times> int) list \<Rightarrow> error + int list"
        and le = "\<lambda>a b. Inr (a \<le> b)"] n
  show ?thesis by simp
qed



section \<open>The key of a joker\<close>

text \<open>
  Claim C10. For a card whose suit is \<open>"comodin"\<close>, \<open>Card.key\<close> returns \<open>(4, rank)\<close>
  with the raw rank, whatever the rank is, in \<open>ranks_order\<close> or not. Such a key
  compares after the key of every card of another suit, and between two jokers the
  comparison of the keys is the comparison of the raw ranks.
\<close>

theorem joker_key:
  "suit c = comodin \<longrightarrow>
     Card_key c = Inr (4, rank c) \<and>
     card_sort_key c = Inr (4, rank c) \<and>
     (\<forall>c' k'. suit c' \<noteq> comodin \<and> Card_key c' = Inr k' \<longrightarrow>
        tuple_le k' (4, rank c) = Inr True \<and> tuple_le (4, rank c) k' = Inr False) \<and>
     (\<forall>c'. suit c' = comodin \<longrightarrow>
        tuple_le (4, rank c) (4, rank c')
          = (if rank c = rank c' then Inr True else pyval_le (rank c) (rank c')))"
proof (intro impI conjI allI)
  assume j: "suit c = comodin"
  show "Card_key c = Inr (4, rank c)" using j by (rule Card_key_joker)
  then show "card_sort_key c = Inr (4, rank c)" by (simp add: card_sort_key_def)
  show "tuple_le (4, rank c) (4, rank c')
          = (if rank c = rank c' then Inr True else pyval_le (rank c) (rank c'))" for c'
    by (simp add: tuple_le_def)
next
  fix c' k'
  assume j: "suit c = comodin" and o: "suit c' \<noteq> comodin \<and> Card_key c' = Inr k'"
  then have "fst k' < 4" using Card_key_ordinary [of c' "fst k'" "snd k'"] by simp
  then show "tuple_le k' (4, rank c) = Inr True" "tuple_le (4, rank c) k' = Inr False"
    by (simp_all add: tuple_le_def)
qed

theorem joker_key_witness:
  "suit \<lparr>suit = comodin, rank = PStr ''wild''\<rparr> = comodin \<and>
   ranks_order (PStr ''wild'') = None \<and>
   Card_key \<lparr>suit = comodin, rank = PStr ''wild''\<rparr> = Inr (4, PStr ''wild'') \<and>
   suit \<lparr>suit = PStr ''diamantes'', rank = PStr ''K''\<rparr> \<noteq> comodin \<and>
   Card_key \<lparr>suit = PStr ''diamantes'', rank = PStr ''K''\<rparr> = Inr (3, PInt 13) \<and>
   tuple_le (3, PInt 13) (4, PStr ''wild'') = Inr True \<and>
   tuple_le (4, PStr ''wild'') (3, PInt 13) = Inr False \<and>
   tuple_le (4, PStr ''wild'') (4, PInt 1) = Inl TypeError"
proof -
  let ?j = "\<lparr>suit = comodin, rank = PStr ''wild''\<rparr>"
  let ?d = "\<lparr>suit = PStr ''diamantes'', rank = PStr ''K''\<rparr>"
  let ?j1 = "\<lparr>suit = comodin, rank = PInt 1\<rparr>"
  have k: "Card_key ?d = Inr (3, PInt 13)"
    by (simp add: Card_key_def lookup_def suits_order_def ranks_order_def comodin_def)
  have r: "ranks_order (PStr ''wild'') = None"
    by (simp add: ranks_order_def)
  have d: "suit ?d \<noteq> comodin"
    by (simp add: comodin_def)
  have j: "suit ?j = comodin" "suit ?j1 = comodin"
    by simp_all
  note t = joker_key [where c = ?j, THEN mp, OF j(1)]
  note t1 = t [THEN conjunct1]
  note t3 = t [THEN conjunct2, THEN conjunct2, THEN conjunct1, rule_format]
  note t4 = t [THEN conjunct2, THEN conjunct2, THEN conjunct2, rule_format]
  have o: "tuple_le (3, PInt 13) (4, rank ?j) = Inr True \<and>
           tuple_le (4, rank ?j) (3, PInt 13) = Inr False"
    using t3 [of ?d "(3, PInt 13)"] d k by simp
  have e: "tuple_le (4, rank ?j) (4, rank ?j1) =
           (if rank ?j = rank ?j1 then Inr True else pyval_le (rank ?j) (rank ?j1))"
    using t4 [of ?j1] j(2) by blast
  from t1 o e k r d show ?thesis by simp
qed

section \<open>The recommended depth\<close>

lemma log2_one_plus:
  "1 / 2 ^ n \<le> log 2 (1 + 1 / 2 ^ n)" for n :: nat
proof -
  let ?x = "1 / (2::real) ^ n"
  have "- 1 \<le> ?x"
    by (rule order_trans [of _ 0]) simp_all
  then have "1 + real (2 ^ n) * ?x \<le> (1 + ?x) ^ (2 ^ n)"
    by (rule Bernoulli_inequality)
  then have "2 \<le> (1 + ?x) ^ (2 ^ n)" by simp
  then have "log 2 2 \<le> log 2 ((1 + ?x) ^ (2 ^ n))"
    by (intro log_mono) simp_all
  then have "1 \<le> real (2 ^ n) * log 2 (1 + ?x)"
    by (simp add: log_nat_power)
  then have "1 \<le> 2 ^ n * log 2 (1 + ?x)" by simp
  then show ?thesis
    by (simp add: field_simps)
qed

lemma one_plus_pos: "0 < 1 + 1 / (2::real) ^ m"
  by (rule add_pos_nonneg) simp_all

lemma log2_gap_below:
  fixes P :: int and m :: nat
  assumes "2 ^ m < P"
  shows "real m + 1 / 2 ^ m \<le> log 2 (real_of_int P)"
proof -
  from assms have "2 ^ m + 1 \<le> P" by simp
  then have "real_of_int (2 ^ m + 1) \<le> real_of_int P"
    by (simp only: of_int_le_iff)
  then have le: "(2::real) ^ m + 1 \<le> real_of_int P"
    by simp
  have eq: "2 ^ m * (1 + 1 / 2 ^ m) = 2 ^ m + (1::real)"
    by (simp add: distrib_left)
  have pos: "0 < 2 ^ m * (1 + 1 / (2::real) ^ m)"
    by (rule mult_pos_pos) (simp_all add: one_plus_pos)
  have "log 2 (2 ^ m * (1 + 1 / 2 ^ m)) \<le> log 2 (real_of_int P)"
    using pos le unfolding eq by (intro log_mono) simp_all
  moreover have "log 2 (2 ^ m * (1 + 1 / 2 ^ m)) = log 2 (2 ^ m) + log 2 (1 + 1 / 2 ^ m)"
    by (rule log_mult_pos) (simp_all add: one_plus_pos)
  moreover have "log 2 ((2::real) ^ m) = real m"
    by simp
  ultimately show ?thesis
    using log2_one_plus [of m] by linarith
qed

lemma log2_gap_above:
  fixes P :: int and m :: nat
  assumes "0 < P" "P < 2 ^ m"
  shows "log 2 (real_of_int P) + 1 / 2 ^ m \<le> real m"
proof -
  from assms have "P + 1 \<le> 2 ^ m" by simp
  then have "real_of_int (P + 1) \<le> real_of_int (2 ^ m)"
    by (simp only: of_int_le_iff)
  then have le: "real_of_int P \<le> 2 ^ m - 1"
    by simp
  have pos: "0 < real_of_int P" using assms by simp
  have "real_of_int P * (1 + 1 / 2 ^ m) \<le> (2 ^ m - 1) * (1 + 1 / 2 ^ m)"
    using le one_plus_pos [of m] by (intro mult_right_mono) simp_all
  also have "\<dots> = 2 ^ m - 1 / 2 ^ m"
    by (simp add: algebra_simps diff_divide_distrib)
  also have "\<dots> \<le> 2 ^ m" by simp
  finally have b: "real_of_int P * (1 + 1 / 2 ^ m) \<le> 2 ^ m" .
  have pos2: "0 < real_of_int P * (1 + 1 / 2 ^ m)"
    using pos one_plus_pos [of m] by (rule mult_pos_pos)
  have "log 2 (real_of_int P * (1 + 1 / 2 ^ m)) \<le> log 2 (2 ^ m)"
    using pos2 b by (intro log_mono) simp_all
  moreover have "log 2 (real_of_int P * (1 + 1 / 2 ^ m))
                 = log 2 (real_of_int P) + log 2 (1 + 1 / 2 ^ m)"
    using pos one_plus_pos [of m] by (rule log_mult_pos)
  moreover have "log 2 ((2::real) ^ m) = real m"
    by simp
  ultimately show ?thesis
    using log2_one_plus [of m] by linarith
qed

lemma small_error:
  fixes m :: nat
  assumes "m \<le> 32"
  shows "1 / (2::real) ^ 40 < 1 / 2 ^ m"
proof -
  have "(2::real) ^ m < 2 ^ 40"
    using assms by (intro power_strict_increasing) simp_all
  then show ?thesis
    by (intro divide_strict_left_mono) simp_all
qed

lemma py_int_log2_bracket:
  fixes P :: int and m :: nat
  assumes acc: "accurate_log2 log2" and lo: "2 ^ m \<le> P" and hi: "P < 2 ^ (m + 1)"
    and m: "m < 32"
  shows "py_int (log2 P) = int m"
proof (cases "P = 2 ^ m")
  case True
  with acc m have "log2 P = real m"
    by (simp add: accurate_log2_def)
  then show ?thesis by (simp add: py_int_def)
next
  case False
  with lo have lt: "2 ^ m < P" by simp
  have pos: "0 < P" using lo by (rule less_le_trans [rotated]) simp
  have "(2::int) ^ (m + 1) \<le> 2 ^ 32"
    using m by (intro power_increasing) simp_all
  with hi have "P < 2 ^ 32" by simp
  with acc pos have err: "\<bar>log2 P - log 2 (real_of_int P)\<bar> \<le> 1 / 2 ^ 40"
    by (simp add: accurate_log2_def)
  have below: "real m + 1 / 2 ^ m \<le> log 2 (real_of_int P)"
    using lt by (rule log2_gap_below)
  have above: "log 2 (real_of_int P) + 1 / 2 ^ (m + 1) \<le> real (m + 1)"
    using pos hi by (rule log2_gap_above)
  have e1: "1 / (2::real) ^ 40 < 1 / 2 ^ m"
    using m by (intro small_error) simp
  have e2: "1 / (2::real) ^ 40 < 1 / 2 ^ (m + 1)"
    using m by (intro small_error) simp
  have "real m \<le> log2 P" "log2 P < real m + 1"
    using err below above e1 e2 by (simp_all only: abs_le_iff of_nat_add of_nat_1) linarith+
  then have "\<lfloor>log2 P\<rfloor> = int m" "0 \<le> log2 P"
    by (simp_all add: floor_eq_iff) 
  then show ?thesis by (simp add: py_int_def)
qed

lemma floor_log2_bracket:
  fixes P :: int and m :: nat
  assumes lo: "2 ^ m \<le> P" and hi: "P < 2 ^ (m + 1)"
  shows "\<lfloor>log 2 (real_of_int P)\<rfloor> = int m"
proof -
  have pos: "0 < real_of_int P"
    using lo by (simp add: less_le_trans [of 0 "2 ^ m"])
  have "real_of_int (2 ^ m) \<le> real_of_int P" "real_of_int P < real_of_int (2 ^ (m + 1))"
    using lo hi by (simp_all only: of_int_le_iff of_int_less_iff)
  then have b: "2 ^ m \<le> real_of_int P" "real_of_int P < 2 ^ (m + 1)"
    by simp_all
  have p1: "2 powr real_of_int (int m) = (2::real) ^ m"
    using powr_realpow [of 2 m] by simp
  have p2: "2 powr real_of_int (int m + 1) = (2::real) ^ (m + 1)"
    using powr_realpow [of 2 "m + 1"] by (simp add: add.commute)
  have "\<lfloor>log 2 (real_of_int P)\<rfloor> = int m \<longleftrightarrow>
        2 powr real_of_int (int m) \<le> real_of_int P \<and>
        real_of_int P < 2 powr real_of_int (int m + 1)"
    using pos by (intro floor_log_eq_powr_iff) simp_all
  then show ?thesis
    using b unfolding p1 p2 by blast
qed

lemma bracket_exists:
  fixes P :: int
  assumes "1 \<le> P"
  shows "\<exists>m::nat. 2 ^ m \<le> P \<and> P < 2 ^ (m + 1)"
proof -
  have "1 \<le> nat P" using assms by simp
  then obtain m where "2 ^ m \<le> nat P" "nat P < 2 ^ (m + 1)"
    using ex_power_ivl1 [of 2 "nat P"] by auto
  then have "int (2 ^ m) \<le> int (nat P)" "int (nat P) < int (2 ^ (m + 1))"
    by (simp_all only: of_nat_le_iff of_nat_less_iff)
  then have "2 ^ m \<le> P \<and> P < 2 ^ (m + 1)"
    using assms by simp
  then show ?thesis ..
qed

lemma accurate_log2_real: "accurate_log2 (\<lambda>n. log 2 (real_of_int n))"
  by (simp add: accurate_log2_def)

text \<open>
  Claim C6. \<open>get_optimal_max_depth\<close> returns \<open>0\<close> when the CPU count is below 2, so
  for one CPU. With a library logarithm as accurate as \<^const>\<open>accurate_log2\<close> says and
  fewer than \<open>2 ^ 32\<close> CPUs, it returns a non-negative integer, which from 2 CPUs on
  is the floor of the base-2 logarithm of the CPU count; it returns \<open>3\<close> for eight
  CPUs.
\<close>

theorem get_optimal_max_depth_floor_log2:
  "(cpu_count < 2 \<longrightarrow> get_optimal_max_depth log2 cpu_count = 0) \<and>
   get_optimal_max_depth log2 1 = 0 \<and>
   (accurate_log2 log2 \<longrightarrow>
      (2 \<le> cpu_count \<and> cpu_count < 2 ^ 32 \<longrightarrow>
         get_optimal_max_depth log2 cpu_count = \<lfloor>log 2 (real_of_int cpu_count)\<rfloor>) \<and>
      (cpu_count < 2 ^ 32 \<longrightarrow> 0 \<le> get_optimal_max_depth log2 cpu_count) \<and>
      get_optimal_max_depth log2 8 = 3)"
proof (intro conjI impI)
  show "get_optimal_max_depth log2 1 = 0"
    by (simp add: get_optimal_max_depth_def)
  show "get_optimal_max_depth log2 cpu_count = 0" if "cpu_count < 2"
    using that by (simp add: get_optimal_max_depth_def)
next
  assume acc: "accurate_log2 log2"
  have main: "get_optimal_max_depth log2 P = \<lfloor>log 2 (real_of_int P)\<rfloor> \<and>
              0 \<le> get_optimal_max_depth log2 P"
    if P: "2 \<le> P" "P < 2 ^ 32" for P
  proof -
    from P obtain m :: nat where b: "2 ^ m \<le> P" "P < 2 ^ (m + 1)"
      using bracket_exists [of P] by auto
    have "(2::int) ^ m < 2 ^ 32" using b(1) P(2) by simp
    then have m: "m < 32" by (rule power_less_imp_less_exp [rotated]) simp
    have "py_int (log2 P) = int m"
      using acc b m by (rule py_int_log2_bracket)
    moreover have "\<lfloor>log 2 (real_of_int P)\<rfloor> = int m"
      using b by (rule floor_log2_bracket)
    ultimately show ?thesis
      using P by (simp add: get_optimal_max_depth_def)
  qed
  show "get_optimal_max_depth log2 cpu_count = \<lfloor>log 2 (real_of_int cpu_count)\<rfloor>"
    if "2 \<le> cpu_count \<and> cpu_count < 2 ^ 32"
    using that main [of cpu_count] by simp
  show "0 \<le> get_optimal_max_depth log2 cpu_count" if "cpu_count < 2 ^ 32"
    using that main [of cpu_count]
    by (cases "cpu_count < 2") (simp_all add: get_optimal_max_depth_def)
  have "\<lfloor>log 2 (real_of_int 8)\<rfloor> = int 3"
    by (rule floor_log2_bracket) simp_all
  then show "get_optimal_max_depth log2 8 = 3"
    using main [of 8] by simp
qed

theorem get_optimal_max_depth_floor_log2_witness:
  "accurate_log2 (\<lambda>n. log 2 (real_of_int n)) \<and>
   (2::int) \<le> 12 \<and> (12::int) < 2 ^ 32 \<and>
   get_optimal_max_depth (\<lambda>n. log 2 (real_of_int n)) 12 = \<lfloor>log 2 (real_of_int 12)\<rfloor> \<and>
   \<lfloor>log 2 (real_of_int 12)\<rfloor> = 3 \<and>
   (0::int) < 2 \<and> get_optimal_max_depth (\<lambda>n. log 2 (real_of_int n)) 0 = 0 \<and>
   get_optimal_max_depth (\<lambda>n. log 2 (real_of_int n)) 8 = 3"
proof -
  have f: "\<lfloor>log 2 (real_of_int 12)\<rfloor> = int 3"
    by (rule floor_log2_bracket) simp_all
  from get_optimal_max_depth_floor_log2 [of 12 "\<lambda>n. log 2 (real_of_int n)"]
    get_optimal_max_depth_floor_log2 [of 0 "\<lambda>n. log 2 (real_of_int n)"]
    accurate_log2_real f
  show ?thesis by simp
qed

section \<open>No mutation of the inputs\<close>

text \<open>
  On the store, the loop of \<open>merge\<close> computes what the loop over values computes and
  writes only to \<open>merged\<close>, as long as \<open>merged\<close> is neither \<open>left\<close> nor \<open>right\<close>.
\<close>

lemma merge_loop_st_eq:
  "L = s ! left \<Longrightarrow> R = s ! right \<Longrightarrow> acc = s ! merged \<Longrightarrow>
   merged < length s \<Longrightarrow> merged \<noteq> left \<Longrightarrow> merged \<noteq> right \<Longrightarrow>
   merge_loop_st s left right key i j merged
   = Some (case merge_loop L R key i j acc of
             (i', j', acc') \<Rightarrow> (i', j', s[merged := acc']))"
proof (induction L R key i j acc arbitrary: s rule: merge_loop.induct)
  case (1 L R key i j acc)
  show ?case
  proof (cases "i < length L \<and> j < length R")
    case False
    then show ?thesis
      using "1.prems"
      by (subst merge_loop_st.simps, subst merge_loop.simps) (auto simp: list_update_same_conv)
  next
    case True
    show ?thesis
    proof (cases "key (L ! i) \<le> key (R ! j)")
      case le: True
      let ?s = "append_st s merged (s ! left ! i)"
      have "merge_loop_st ?s left right key (i + 1) j merged
            = Some (case merge_loop L R key (i + 1) j (acc @ [L ! i]) of
                      (i', j', acc') \<Rightarrow> (i', j', ?s[merged := acc']))"
        using True le "1.prems"
        by (intro "1.IH"(1)) (simp_all add: append_st_def)
      then show ?thesis
        using True le "1.prems"
        by (subst merge_loop_st.simps, subst merge_loop.simps) (simp add: append_st_def)
    next
      case gt: False
      let ?s = "append_st s merged (s ! right ! j)"
      have "merge_loop_st ?s left right key i (j + 1) merged
            = Some (case merge_loop L R key i (j + 1) (acc @ [R ! j]) of
                      (i', j', acc') \<Rightarrow> (i', j', ?s[merged := acc']))"
        using True gt "1.prems"
        by (intro "1.IH"(2)) (simp_all add: append_st_def)
      then show ?thesis
        using True gt "1.prems"
        by (subst merge_loop_st.simps, subst merge_loop.simps) (simp add: append_st_def)
    qed
  qed
qed

lemma merge_st_eq:
  assumes "left < length s" "right < length s"
  shows "merge_st s left right key = Some (length s, s @ [merge (s ! left) (s ! right) key])"
proof -
  let ?s1 = "s @ [[]]"
  have l: "merge_loop_st ?s1 left right key 0 0 (length s)
           = Some (case merge_loop (s ! left) (s ! right) key 0 0 [] of
                     (i', j', acc') \<Rightarrow> (i', j', ?s1[length s := acc']))"
    using assms by (intro merge_loop_st_eq) (simp_all add: nth_append)
  obtain i' j' acc' where r: "merge_loop (s ! left) (s ! right) key 0 0 [] = (i', j', acc')"
    by (cases "merge_loop (s ! left) (s ! right) key 0 0 []") auto
  show ?thesis
    using assms l r
    by (simp add: merge_st_def new_list_def extend_st_def merge_def nth_append)
qed

lemma parallel_merge_sort_st_eq:
  "array < length s \<Longrightarrow>
   \<exists>r ext. parallel_merge_sort_st s array key max_depth = Some (r, s @ ext) \<and>
           length s \<le> r \<and> r < length (s @ ext) \<and>
           (s @ ext) ! r = parallel_merge_sort (s ! array) key max_depth"
proof (induction "nat max_depth" arbitrary: s array max_depth)
  case 0
  then show ?case
    by (subst parallel_merge_sort_st.simps, subst parallel_merge_sort.simps)
       (simp add: new_list_def)
next
  case (Suc n)
  show ?case
  proof (cases "length (s ! array) \<le> 1 \<or> max_depth \<le> 0")
    case True
    then show ?thesis
      using Suc.prems
      by (subst parallel_merge_sort_st.simps, subst parallel_merge_sort.simps)
         (simp add: new_list_def)
  next
    case False
    from Suc.hyps(2) have n: "n = nat (max_depth - 1)" by simp
    let ?L = "fst (split_parts (s ! array))"
    let ?R = "snd (split_parts (s ! array))"
    let ?s2 = "(s @ [?L]) @ [?R]"
    have "length s < length ?s2" by simp
    from Suc.hyps(1) [OF n this]
    obtain ls e1 where ls: "parallel_merge_sort_st ?s2 (length s) key (max_depth - 1)
                             = Some (ls, ?s2 @ e1)"
        "length ?s2 \<le> ls" "ls < length (?s2 @ e1)"
        "(?s2 @ e1) ! ls = parallel_merge_sort ?L key (max_depth - 1)"
      by (auto simp: nth_append)
    let ?s3 = "?s2 @ e1"
    have "Suc (length s) < length ?s3" by simp
    from Suc.hyps(1) [OF n this]
    obtain rs e2 where rs: "parallel_merge_sort_st ?s3 (Suc (length s)) key (max_depth - 1)
                             = Some (rs, ?s3 @ e2)"
        "length ?s3 \<le> rs" "rs < length (?s3 @ e2)"
        "(?s3 @ e2) ! rs = parallel_merge_sort ?R key (max_depth - 1)"
      by (auto simp: nth_append)
    let ?s4 = "?s3 @ e2"
    have ls4: "ls < length ?s4" using ls(3) by simp
    have m: "merge_st ?s4 ls rs key
             = Some (length ?s4, ?s4 @ [merge (?s4 ! ls) (?s4 ! rs) key])"
      using ls4 rs(3) by (rule merge_st_eq)
    have "?s4 ! ls = ?s3 ! ls"
      using ls(3) by (rule nth_append_left)
    with ls(4) have l4: "?s4 ! ls = parallel_merge_sort ?L key (max_depth - 1)"
      by (simp only:)
    have res: "parallel_merge_sort_st s array key max_depth
               = Some (length ?s4, ?s4 @ [merge (?s4 ! ls) (?s4 ! rs) key])"
      using False Suc.prems ls(1) rs(1) m
      by (subst parallel_merge_sort_st.simps) (simp add: new_list_def nth_append)
    have val: "merge (?s4 ! ls) (?s4 ! rs) key = parallel_merge_sort (s ! array) key max_depth"
      unfolding l4 rs(4) parallel_merge_sort.simps [of "s ! array"]
      using False by (simp add: Let_def)
    show ?thesis
      apply (rule exI [of _ "length ?s4"])
      apply (rule exI [of _ "[?L] @ [?R] @ e1 @ e2 @ [merge (?s4 ! ls) (?s4 ! rs) key]"])
      using res val by (simp add: nth_append)
  qed
qed

text \<open>
  Claim C9. Neither \<open>merge\<close> nor \<open>parallel_merge_sort\<close> changes a list object that
  existed before the call, the arguments included: the store after the call is the
  store before it followed by new objects. The result is one of the new objects, and it
  holds the merged, respectively sorted, list. The two halves are \<open>array[:mid]\<close> and
  \<open>array[mid:]\<close>, and their concatenation is \<open>array\<close>.
\<close>

theorem inputs_not_mutated:
  "(left < length s \<and> right < length s \<longrightarrow>
      (\<exists>s'. merge_st s left right key = Some (length s, s') \<and>
            take (length s) s' = s \<and>
            s' ! length s = merge (s ! left) (s ! right) key)) \<and>
   (array < length s \<longrightarrow>
      (\<exists>r s'. parallel_merge_sort_st s array key max_depth = Some (r, s') \<and>
              length s \<le> r \<and> r < length s' \<and> take (length s) s' = s \<and>
              s' ! r = parallel_merge_sort (s ! array) key max_depth)) \<and>
   split_parts xs = (take (length xs div 2) xs, drop (length xs div 2) xs) \<and>
   fst (split_parts xs) @ snd (split_parts xs) = xs"
proof (intro conjI impI)
  assume "left < length s \<and> right < length s"
  then have "merge_st s left right key
             = Some (length s, s @ [merge (s ! left) (s ! right) key])"
    by (simp add: merge_st_eq)
  then show "\<exists>s'. merge_st s left right key = Some (length s, s') \<and>
            take (length s) s' = s \<and>
            s' ! length s = merge (s ! left) (s ! right) key"
    by simp
next
  assume "array < length s"
  then obtain r ext where
    "parallel_merge_sort_st s array key max_depth = Some (r, s @ ext)"
    "length s \<le> r" "r < length (s @ ext)"
    "(s @ ext) ! r = parallel_merge_sort (s ! array) key max_depth"
    using parallel_merge_sort_st_eq [of array s key max_depth] by blast
  then show "\<exists>r s'. parallel_merge_sort_st s array key max_depth = Some (r, s') \<and>
              length s \<le> r \<and> r < length s' \<and> take (length s) s' = s \<and>
              s' ! r = parallel_merge_sort (s ! array) key max_depth"
    by (intro exI [of _ r] exI [of _ "s @ ext"]) simp
next
  show "split_parts xs = (take (length xs div 2) xs, drop (length xs div 2) xs)"
    by (simp add: split_parts_def Let_def)
  show "fst (split_parts xs) @ snd (split_parts xs) = xs"
    by (rule split_parts_append)
qed

theorem inputs_not_mutated_witness:
  "((0::nat) < length [[1, 3], [2 :: int]] \<and> (1::nat) < length [[1, 3], [2 :: int]] \<and>
    (\<exists>s'. merge_st [[1, 3], [2 :: int]] 0 1 (\<lambda>x. x) = Some (2, s') \<and>
          take 2 s' = [[1, 3], [2]] \<and> s' ! 2 = [1, 2, 3])) \<and>
   ((0::nat) < length [[3, 1, 2 :: int]] \<and>
    (\<exists>r s'. parallel_merge_sort_st [[3, 1, 2 :: int]] 0 (\<lambda>x. x) 1 = Some (r, s') \<and>
            1 \<le> r \<and> r < length s' \<and> take 1 s' = [[3, 1, 2]] \<and> s' ! r = [1, 2, 3]))"
proof -
  have m: "merge [1, 3] [2 :: int] (\<lambda>x. x) = [1, 2, 3]"
    by code_simp
  have p: "parallel_merge_sort [3, 1, 2 :: int] (\<lambda>x. x) 1 = [1, 2, 3]"
    by code_simp
  from inputs_not_mutated [where s = "[[1, 3], [2 :: int]]" and left = 0 and right = 1
         and key = "\<lambda>x. x" and array = 0 and max_depth = 1 and xs = "[] :: int list"]
  have a: "\<exists>s'. merge_st [[1, 3], [2 :: int]] 0 1 (\<lambda>x. x) = Some (2, s') \<and>
          take 2 s' = [[1, 3], [2]] \<and> s' ! 2 = [1, 2, 3]"
    by (simp add: m numeral_2_eq_2)
  from inputs_not_mutated [where s = "[[3, 1, 2 :: int]]" and left = 0 and right = 0
         and key = "\<lambda>x. x" and array = 0 and max_depth = 1 and xs = "[] :: int list"]
  have b: "\<exists>r s'. parallel_merge_sort_st [[3, 1, 2 :: int]] 0 (\<lambda>x. x) 1 = Some (r, s') \<and>
            1 \<le> r \<and> r < length s' \<and> take 1 s' = [[3, 1, 2]] \<and> s' ! r = [1, 2, 3]"
    by (simp add: p)
  from a b show ?thesis by simp
qed

end
